theory Spec2Isabelle
  imports Main "HOL-Library.Char_ord" "HOL-Library.List_Lexorder" "HOL-Library.Multiset"
begin

section \<open>The agent registry of internal/agents/registry.go\<close>

subsection \<open>Data model\<close>

text \<open>
  The interface \<^verbatim>\<open>Agent\<close> of agent.go: the registry reads only \<^verbatim>\<open>Name()\<close> and
  \<^verbatim>\<open>CanHandle(taskType)\<close>; both are taken as pure methods of the agent value.
  \<^verbatim>\<open>Execute\<close> is never called by the registry. A Go string is a byte sequence and
  \<^verbatim>\<open><\<close> on strings compares bytewise, which is the lexicographic order on
  \<^typ>\<open>char list\<close>. A nil interface value is \<^term>\<open>None\<close> of \<^typ>\<open>'a option\<close>.
\<close>

record agent =
  Name :: string
  CanHandle :: "string \<Rightarrow> bool"

text \<open>
  The struct \<^verbatim>\<open>Registry\<close> (the mutex apart): three Go maps. Every method holds the
  mutex from its first access to its return, so the calls of several goroutines take
  effect one after the other and a method is a function from the registry before the
  call to a result and the registry after it. The cursor is a Go \<^verbatim>\<open>int\<close>; every value
  the code stores there is below a slice length, so no arithmetic on it can wrap.
\<close>

record registry =
  byName :: "string \<rightharpoonup> agent"
  byType :: "string \<rightharpoonup> agent list"
  rrIdx :: "string \<rightharpoonup> int"

definition NewRegistry :: registry where
  "NewRegistry = \<lparr>byName = Map.empty, byType = Map.empty, rrIdx = Map.empty\<rparr>"

text \<open>Reading a Go map at a missing key gives the zero value: a nil slice, the integer 0.\<close>

definition slice_at :: "registry \<Rightarrow> string \<Rightarrow> agent list" where
  "slice_at r t = (case byType r t of None \<Rightarrow> [] | Some l \<Rightarrow> l)"

definition cursor_at :: "registry \<Rightarrow> string \<Rightarrow> int" where
  "cursor_at r t = (case rrIdx r t of None \<Rightarrow> 0 | Some c \<Rightarrow> c)"

text \<open>
  A \<^verbatim>\<open>range\<close> over a Go map visits every key once, in an order the language leaves
  open: \<^term>\<open>range_order m ks\<close> says that \<open>ks\<close> is one such order for the map \<open>m\<close>.
\<close>

definition range_order :: "('k \<rightharpoonup> 'v) \<Rightarrow> 'k list \<Rightarrow> bool" where
  "range_order m ks = (distinct ks \<and> set ks = dom m)"

text \<open>Go's \<^verbatim>\<open>%\<close> on integers truncates towards zero: the sign is the dividend's.\<close>

definition go_rem :: "int \<Rightarrow> int \<Rightarrow> int" where
  "go_rem a b = sgn a * (\<bar>a\<bar> mod \<bar>b\<bar>)"

subsection \<open>dedupe\<close>

fun dedupe_loop :: "string list \<Rightarrow> string set \<Rightarrow> string list \<Rightarrow> string list" where
  "dedupe_loop [] seen out = out"
| "dedupe_loop (s # rest) seen out =
     (if s \<in> seen then dedupe_loop rest seen out
      else dedupe_loop rest (insert s seen) (out @ [s]))"

definition dedupe :: "string list \<Rightarrow> string list" where
  "dedupe inp = dedupe_loop inp {} []"

subsection \<open>Register\<close>

datatype error = NilAgent | EmptyName | AlreadyRegistered string

text \<open>One round of the loop over the task types (lines 51 to 57).\<close>

definition index_type :: "agent \<Rightarrow> registry \<Rightarrow> string \<Rightarrow> registry" where
  "index_type a r t =
     (if \<not> CanHandle a t then r
      else r\<lparr>byType := (byType r)(t \<mapsto> slice_at r t @ [a])\<rparr>)"

text \<open>
  The loop of lines 60 to 64 sorts the slice of every key in place with
  \<^verbatim>\<open>sort.SliceStable\<close>; a round touches the entry of its own key only, so the loop is
  the same change at every key, whatever the order of the keys. The stable sort by name
  is \<^term>\<open>sort_key Name\<close>.
\<close>

definition sort_all :: "registry \<Rightarrow> registry" where
  "sort_all r = r\<lparr>byType := (\<lambda>t. map_option (sort_key Name) (byType r t))\<rparr>"

definition Register :: "agent option \<Rightarrow> string list \<Rightarrow> registry \<Rightarrow> error option \<times> registry" where
  "Register ao taskTypes r =
     (case ao of
        None \<Rightarrow> (Some NilAgent, r)
      | Some a \<Rightarrow>
          (let name = Name a in
           if name = [] then (Some EmptyName, r)
           else if byName r name \<noteq> None then (Some (AlreadyRegistered name), r)
           else
             (let r1 = r\<lparr>byName := (byName r)(name \<mapsto> a)\<rparr>;
                  r2 = foldl (index_type a) r1 (dedupe taskTypes)
              in (None, sort_all r2))))"

subsection \<open>Deregister\<close>

text \<open>
  One round of the loop of lines 80 to 97, for the key \<open>t\<close> and its slice \<open>list\<close>. The
  filtered slice reuses the backing array of \<open>list\<close>, which no other entry shares.
\<close>

definition unindex :: "string \<Rightarrow> registry \<Rightarrow> string \<Rightarrow> agent list \<Rightarrow> registry" where
  "unindex name r t list =
     (let newList = filter (\<lambda>ag. Name ag \<noteq> name) list in
      if length newList = 0
      then r\<lparr>byType := (byType r)(t := None), rrIdx := (rrIdx r)(t := None)\<rparr>
      else
        (let r' = r\<lparr>byType := (byType r)(t \<mapsto> newList)\<rparr> in
         if cursor_at r' t \<ge> int (length newList)
         then r'\<lparr>rrIdx := (rrIdx r')(t \<mapsto> 0)\<rparr>
         else r'))"

text \<open>
  The whole loop: every round reads and writes the entries of its own key only, so the
  result at a key is the result of that key's round on the state before the loop.
\<close>

definition unindex_all :: "string \<Rightarrow> registry \<Rightarrow> registry" where
  "unindex_all name r =
     r\<lparr>byType := (\<lambda>t. case byType r t of None \<Rightarrow> None
                        | Some list \<Rightarrow> byType (unindex name r t list) t),
       rrIdx := (\<lambda>t. case byType r t of None \<Rightarrow> rrIdx r t
                        | Some list \<Rightarrow> rrIdx (unindex name r t list) t)\<rparr>"

definition Deregister :: "string \<Rightarrow> registry \<Rightarrow> bool \<times> registry" where
  "Deregister name r =
     (case byName r name of
        None \<Rightarrow> (False, r)
      | Some _ \<Rightarrow> (True, unindex_all name (r\<lparr>byName := (byName r)(name := None)\<rparr>)))"

subsection \<open>Get, Select, List\<close>

definition Get :: "string \<Rightarrow> registry \<Rightarrow> agent option" where
  "Get name r = byName r name"

text \<open>
  The fallback scan of lines 118 to 122 over the name index, in the order \<open>ks\<close> the
  \<^verbatim>\<open>range\<close> yields its keys.
\<close>

fun scan :: "(string \<rightharpoonup> agent) \<Rightarrow> string \<Rightarrow> string list \<Rightarrow> agent list \<Rightarrow> agent list" where
  "scan m taskType [] list = list"
| "scan m taskType (k # ks) list =
     (case m k of
        None \<Rightarrow> scan m taskType ks list
      | Some a \<Rightarrow>
          if CanHandle a taskType then scan m taskType ks (list @ [a])
          else scan m taskType ks list)"

text \<open>
  A call of \<^verbatim>\<open>Select\<close> returns \<^verbatim>\<open>(a, true)\<close>, returns \<^verbatim>\<open>(nil, false)\<close>, or panics at
  \<^verbatim>\<open>list[i]\<close> when the index is out of range (a negative cursor gives a negative
  remainder).
\<close>

datatype outcome = Selected agent | NoAgent | IndexPanic

text \<open>Lines 129 to 132, on the slice chosen before.\<close>

definition pick :: "string \<Rightarrow> agent list \<Rightarrow> registry \<Rightarrow> outcome \<times> registry" where
  "pick taskType list r =
     (let i = go_rem (cursor_at r taskType) (int (length list)) in
      if i < 0 \<or> int (length list) \<le> i then (IndexPanic, r)
      else (Selected (list ! nat i),
            r\<lparr>rrIdx := (rrIdx r)(taskType \<mapsto> go_rem (i + 1) (int (length list)))\<rparr>))"

definition Select :: "string list \<Rightarrow> string \<Rightarrow> registry \<Rightarrow> outcome \<times> registry" where
  "Select ks taskType r =
     (let list = slice_at r taskType in
      if length list = 0 then
        (let list' = scan (byName r) taskType ks list in
         if length list' = 0 then (NoAgent, r)
         else pick taskType list' (r\<lparr>byType := (byType r)(taskType \<mapsto> list')\<rparr>))
      else pick taskType list r)"

text \<open>
  \<^verbatim>\<open>List\<close> collects the values in the order \<open>ks\<close> of the \<^verbatim>\<open>range\<close> and sorts them by
  name; the registry is not changed. \<^verbatim>\<open>sort.Slice\<close> is not stable, but the names of
  the collected agents are pairwise distinct in every state the calls produce
  (\<open>List_agents_names_distinct\<close>), and then every sort by name gives the same slice.
\<close>

definition List_agents :: "string list \<Rightarrow> registry \<Rightarrow> agent list" where
  "List_agents ks r = sort_key Name (List.map_filter (byName r) ks)"

subsection \<open>Sequences of operations\<close>

datatype op =
    OpRegister "agent option" "string list"
  | OpDeregister string
  | OpSelect "string list" string
  | OpGet string
  | OpList "string list"

fun step :: "registry \<Rightarrow> op \<Rightarrow> registry" where
  "step r (OpRegister ao taskTypes) = snd (Register ao taskTypes r)"
| "step r (OpDeregister name) = snd (Deregister name r)"
| "step r (OpSelect ks taskType) = snd (Select ks taskType r)"
| "step r (OpGet name) = r"
| "step r (OpList ks) = r"

definition run :: "op list \<Rightarrow> registry" where
  "run ops = foldl step NewRegistry ops"

subsection \<open>The two loops over the capability index, one round at a time\<close>

text \<open>
  \<^term>\<open>sort_all\<close> and \<^term>\<open>unindex_all\<close> give the result of a loop key by key. The
  loops themselves run one round per key, in the order of the \<^verbatim>\<open>range\<close>; the rounds
  are below, and \<open>sort_all_loop\<close> and \<open>unindex_all_loop\<close> show that running them in
  any order of the keys gives those results.
\<close>

definition sort_entry :: "registry \<Rightarrow> string \<Rightarrow> registry" where
  "sort_entry r t = r\<lparr>byType := (byType r)(t \<mapsto> sort_key Name (slice_at r t))\<rparr>"

definition unindex_entry :: "string \<Rightarrow> registry \<Rightarrow> string \<Rightarrow> registry" where
  "unindex_entry name r t = unindex name r t (slice_at r t)"

subsection \<open>Consistency of the three maps\<close>

text \<open>Every agent is stored in the name index under its own name.\<close>

definition inv_names :: "registry \<Rightarrow> bool" where
  "inv_names r = (\<forall>n a. byName r n = Some a \<longrightarrow> Name a = n)"

text \<open>Every agent of a capability sequence is in the name index.\<close>

definition inv_indexed :: "registry \<Rightarrow> bool" where
  "inv_indexed r =
     (\<forall>t l a. byType r t = Some l \<longrightarrow> a \<in> set l \<longrightarrow> byName r (Name a) = Some a)"

text \<open>Every agent of the sequence of a task type can handle that type.\<close>

definition inv_capable :: "registry \<Rightarrow> bool" where
  "inv_capable r = (\<forall>t l a. byType r t = Some l \<longrightarrow> a \<in> set l \<longrightarrow> CanHandle a t)"

text \<open>
  A stored sequence is not empty and a stored cursor is an index into the sequence of
  its key; a key without a sequence has no cursor.
\<close>

definition inv_cursor :: "registry \<Rightarrow> bool" where
  "inv_cursor r = (\<forall>t. case byType r t of
       None \<Rightarrow> rrIdx r t = None
     | Some l \<Rightarrow> l \<noteq> [] \<and> (\<forall>c. rrIdx r t = Some c \<longrightarrow> 0 \<le> c \<and> c < int (length l)))"

definition inv :: "registry \<Rightarrow> bool" where
  "inv r = (inv_names r \<and> inv_indexed r \<and> inv_capable r \<and> inv_cursor r)"

subsection \<open>Sample agents and call sequences\<close>

definition agent_a :: agent where
  "agent_a = \<lparr>Name = ''a'', CanHandle = (\<lambda>t. t = ''grade'')\<rparr>"

definition agent_b :: agent where
  "agent_b = \<lparr>Name = ''b'', CanHandle = (\<lambda>t. t = ''grade'')\<rparr>"

text \<open>Both agents registered for the type they handle, the second with the type given twice.\<close>

definition two_graders :: "op list" where
  "two_graders =
     [OpRegister (Some agent_b) [''grade''], OpRegister (Some agent_a) [''grade'', ''grade'']]"

text \<open>Both agents registered without any task type.\<close>

definition unindexed :: "op list" where
  "unindexed = [OpRegister (Some agent_a) [], OpRegister (Some agent_b) []]"

section \<open>What each operation does to the three maps\<close>

subsection \<open>dedupe keeps the first occurrence of every string\<close>

lemma remdups_drop: "x \<in> set bs \<Longrightarrow> remdups (as @ x # bs) = remdups (as @ bs)"
  by (induction as) auto

lemma dedupe_loop_eq:
  "distinct out \<Longrightarrow> dedupe_loop xs (set out) out = rev (remdups (rev (out @ xs)))"
proof (induction xs arbitrary: out)
  case Nil
  then show ?case by (simp add: distinct_remdups_id)
next
  case (Cons x xs)
  show ?case
  proof (cases "x \<in> set out")
    case True
    then show ?thesis using Cons by (simp add: remdups_drop)
  next
    case False
    have "dedupe_loop xs (set (out @ [x])) (out @ [x]) = rev (remdups (rev ((out @ [x]) @ xs)))"
      using Cons.prems False by (intro Cons.IH) simp
    then show ?thesis using False by simp
  qed
qed

lemma dedupe_eq: "dedupe xs = rev (remdups (rev xs))"
  using dedupe_loop_eq [of "[]" xs] by (simp add: dedupe_def)

lemma set_dedupe: "set (dedupe xs) = set xs" by (simp add: dedupe_eq)
lemma distinct_dedupe: "distinct (dedupe xs)" by (simp add: dedupe_eq)

subsection \<open>Register\<close>

lemma byName_index: "byName (foldl (index_type a) r ts) = byName r"
  by (induction ts arbitrary: r) (auto simp: index_type_def)

lemma rrIdx_index: "rrIdx (foldl (index_type a) r ts) = rrIdx r"
  by (induction ts arbitrary: r) (auto simp: index_type_def)

lemma byType_index:
  "distinct ts \<Longrightarrow> byType (foldl (index_type a) r ts) t =
     (if t \<in> set ts \<and> CanHandle a t then Some (slice_at r t @ [a]) else byType r t)"
proof (induction ts arbitrary: r)
  case Nil
  then show ?case by simp
next
  case (Cons u ts)
  then show ?case by (auto simp: index_type_def slice_at_def)
qed


lemma Register_success:
  assumes "Name a \<noteq> []" "byName r (Name a) = None"
  shows "fst (Register (Some a) ts r) = None"
    and "byName (snd (Register (Some a) ts r)) = (byName r)(Name a \<mapsto> a)"
    and "rrIdx (snd (Register (Some a) ts r)) = rrIdx r"
    and "byType (snd (Register (Some a) ts r)) t =
           (if t \<in> set ts \<and> CanHandle a t then Some (sort_key Name (slice_at r t @ [a]))
            else map_option (sort_key Name) (byType r t))"
  using assms
  by (simp_all add: Register_def Let_def sort_all_def byName_index rrIdx_index
      byType_index distinct_dedupe set_dedupe slice_at_def)

lemma Register_failure:
  "ao = None \<or> Name (the ao) = [] \<or> byName r (Name (the ao)) \<noteq> None \<Longrightarrow> snd (Register ao ts r) = r"
  by (auto simp: Register_def Let_def split: option.splits)

lemma Register_cases:
  obtains (fail) "snd (Register ao ts r) = r"
  | (ok) a where "ao = Some a" "Name a \<noteq> []" "byName r (Name a) = None"
  using Register_failure [of ao r ts] by (cases ao) auto

text \<open>The sibling of the fallback scan: a successful \<^verbatim>\<open>Register\<close> leaves every sequence sorted by name.\<close>

lemma Register_sorts_all:
  "fst (Register ao ts r) = None \<Longrightarrow> byType (snd (Register ao ts r)) t = Some l \<Longrightarrow>
   sorted (map Name l)"
  by (auto simp: Register_def Let_def sort_all_def split: option.splits if_splits)

subsection \<open>Deregister\<close>

lemma Deregister_success:
  assumes "byName r name = Some x"
  shows "fst (Deregister name r) = True"
    and "byName (snd (Deregister name r)) = (byName r)(name := None)"
    and "byType (snd (Deregister name r)) t =
           (case byType r t of None \<Rightarrow> None
            | Some l \<Rightarrow> if filter (\<lambda>ag. Name ag \<noteq> name) l = [] then None
                        else Some (filter (\<lambda>ag. Name ag \<noteq> name) l))"
    and "rrIdx (snd (Deregister name r)) t =
           (case byType r t of None \<Rightarrow> rrIdx r t
            | Some l \<Rightarrow> if filter (\<lambda>ag. Name ag \<noteq> name) l = [] then None
                        else if cursor_at r t \<ge> int (length (filter (\<lambda>ag. Name ag \<noteq> name) l))
                             then Some 0 else rrIdx r t)"
  using assms
  by (simp_all add: Deregister_def unindex_all_def unindex_def Let_def cursor_at_def
      split: option.splits)

lemma Deregister_cases:
  obtains (fail) "snd (Deregister name r) = r"
  | (ok) x where "byName r name = Some x"
  by (cases "byName r name") (auto simp: Deregister_def)

subsection \<open>The loops, round by round\<close>

lemma sort_all_loop_gen:
  "distinct ks \<Longrightarrow> set ks \<subseteq> dom (byType r) \<Longrightarrow>
   foldl sort_entry r ks =
     r\<lparr>byType := (\<lambda>t. if t \<in> set ks then map_option (sort_key Name) (byType r t) else byType r t)\<rparr>"
proof (induction ks rule: rev_induct)
  case Nil
  then show ?case by simp
next
  case (snoc k ks)
  then obtain l where "byType r k = Some l" by auto
  then show ?case using snoc
    by (auto simp: sort_entry_def slice_at_def fun_eq_iff)
qed

lemma sort_all_loop: "range_order (byType r) ks \<Longrightarrow> foldl sort_entry r ks = sort_all r"
proof -
  assume ro: "range_order (byType r) ks"
  then have d: "distinct ks" and "set ks = dom (byType r)" by (simp_all add: range_order_def)
  then have "(\<lambda>t. if t \<in> set ks then map_option (sort_key Name) (byType r t) else byType r t) =
             (\<lambda>t. map_option (sort_key Name) (byType r t))"
    by (auto simp: fun_eq_iff domIff)
  then show ?thesis
    using sort_all_loop_gen [OF d, of r] \<open>set ks = dom (byType r)\<close> by (simp add: sort_all_def)
qed

lemma unindex_all_loop_gen:
  "distinct ks \<Longrightarrow> set ks \<subseteq> dom (byType r) \<Longrightarrow>
   foldl (unindex_entry name) r ks =
     r\<lparr>byType := (\<lambda>t. if t \<in> set ks then byType (unindex_all name r) t else byType r t),
       rrIdx := (\<lambda>t. if t \<in> set ks then rrIdx (unindex_all name r) t else rrIdx r t)\<rparr>"
proof (induction ks rule: rev_induct)
  case Nil
  then show ?case by simp
next
  case (snoc k ks)
  then obtain l where l: "byType r k = Some l" by auto
  from snoc have k: "k \<notin> set ks" by simp
  have ih: "foldl (unindex_entry name) r ks =
     r\<lparr>byType := (\<lambda>t. if t \<in> set ks then byType (unindex_all name r) t else byType r t),
       rrIdx := (\<lambda>t. if t \<in> set ks then rrIdx (unindex_all name r) t else rrIdx r t)\<rparr>"
    using snoc by simp
  show ?case
    unfolding foldl_append foldl_Cons foldl_Nil ih
    using k l
    by (auto simp: unindex_entry_def unindex_def unindex_all_def slice_at_def cursor_at_def
        Let_def fun_eq_iff)
qed

lemma unindex_all_loop:
  "range_order (byType r) ks \<Longrightarrow> foldl (unindex_entry name) r ks = unindex_all name r"
proof -
  assume ro: "range_order (byType r) ks"
  then have d: "distinct ks" and s: "set ks = dom (byType r)" by (simp_all add: range_order_def)
  have "foldl (unindex_entry name) r ks =
     r\<lparr>byType := (\<lambda>t. if t \<in> set ks then byType (unindex_all name r) t else byType r t),
       rrIdx := (\<lambda>t. if t \<in> set ks then rrIdx (unindex_all name r) t else rrIdx r t)\<rparr>"
    using unindex_all_loop_gen [OF d, of r name] s by simp
  also have "\<dots> = unindex_all name r"
    using s by (auto simp: unindex_all_def fun_eq_iff domIff)
  finally show ?thesis .
qed

subsection \<open>Select\<close>

lemma scan_eq:
  "scan m t ks l = l @ filter (\<lambda>a. CanHandle a t) (List.map_filter m ks)"
  by (induction ks arbitrary: l) (auto simp: map_filter_simps split: option.splits)

lemma set_map_filter: "set (List.map_filter m ks) = {a. \<exists>k \<in> set ks. m k = Some a}"
  by (induction ks) (auto simp: map_filter_simps split: option.splits)

lemma go_rem_range: "0 \<le> c \<Longrightarrow> 0 < n \<Longrightarrow> 0 \<le> go_rem c n \<and> go_rem c n < n"
  by (cases "c = 0") (simp_all add: go_rem_def)

lemma go_rem_small: "0 \<le> c \<Longrightarrow> c < n \<Longrightarrow> go_rem c n = c"
  by (cases "c = 0") (simp_all add: go_rem_def)

lemma pick_ok:
  assumes "l \<noteq> []" "0 \<le> cursor_at r t"
  shows "\<exists>i. 0 \<le> i \<and> i < int (length l) \<and> i = go_rem (cursor_at r t) (int (length l)) \<and>
           pick t l r = (Selected (l ! nat i),
              r\<lparr>rrIdx := (rrIdx r)(t \<mapsto> go_rem (i + 1) (int (length l)))\<rparr>)"
  using assms go_rem_range [of "cursor_at r t" "int (length l)"]
  by (simp add: pick_def Let_def)


lemma pick_byName: "byName (snd (pick t l r)) = byName r"
  by (simp add: pick_def Let_def)

lemma pick_byType: "byType (snd (pick t l r)) = byType r"
  by (simp add: pick_def Let_def)

lemma pick_rrIdx_other: "u \<noteq> t \<Longrightarrow> rrIdx (snd (pick t l r)) u = rrIdx r u"
  by (simp add: pick_def Let_def)

lemma pick_rrIdx_same:
  "l \<noteq> [] \<Longrightarrow> rrIdx (snd (pick t l r)) t = rrIdx r t \<or>
     (\<exists>c. rrIdx (snd (pick t l r)) t = Some c \<and> 0 \<le> c \<and> c < int (length l))"
proof (cases "fst (pick t l r) = IndexPanic")
  case True
  then show ?thesis by (auto simp: pick_def Let_def split: if_splits)
next
  case False
  assume "l \<noteq> []"
  let ?i = "go_rem (cursor_at r t) (int (length l))"
  from False have i: "0 \<le> ?i" "?i < int (length l)"
    by (auto simp: pick_def Let_def split: if_splits)
  have "rrIdx (snd (pick t l r)) t = Some (go_rem (?i + 1) (int (length l)))"
    using i by (simp add: pick_def Let_def)
  moreover have "0 \<le> go_rem (?i + 1) (int (length l)) \<and> go_rem (?i + 1) (int (length l)) < int (length l)"
    using i \<open>l \<noteq> []\<close> by (intro go_rem_range) auto
  ultimately show ?thesis by simp
qed

lemma Select_byName: "byName (snd (Select ks t r)) = byName r"
  by (simp add: Select_def Let_def pick_byName)

lemma Select_byType_other: "u \<noteq> t \<Longrightarrow> byType (snd (Select ks t r)) u = byType r u"
  by (simp add: Select_def Let_def pick_byType)

lemma Select_byType_same:
  "byType (snd (Select ks t r)) t = byType r t \<or>
   (slice_at r t = [] \<and> scan (byName r) t ks [] \<noteq> [] \<and>
    byType (snd (Select ks t r)) t = Some (scan (byName r) t ks []))"
  by (simp add: Select_def Let_def pick_byType)

lemma Select_rrIdx_other: "u \<noteq> t \<Longrightarrow> rrIdx (snd (Select ks t r)) u = rrIdx r u"
  by (simp add: Select_def Let_def pick_rrIdx_other)

section \<open>The invariants hold after every operation\<close>

lemma inv_indexedD:
  "inv_indexed r \<Longrightarrow> byType r t = Some l \<Longrightarrow> a \<in> set l \<Longrightarrow> byName r (Name a) = Some a"
  unfolding inv_indexed_def by blast

lemma inv_capableD:
  "inv_capable r \<Longrightarrow> byType r t = Some l \<Longrightarrow> a \<in> set l \<Longrightarrow> CanHandle a t"
  unfolding inv_capable_def by blast

lemma inv_namesD: "inv_names r \<Longrightarrow> byName r n = Some a \<Longrightarrow> Name a = n"
  unfolding inv_names_def by blast

lemma inv_names_Register: "inv_names r \<Longrightarrow> inv_names (snd (Register ao ts r))"
  by (cases ao ts r rule: Register_cases) (auto simp: inv_names_def Register_success)

lemma inv_names_Deregister: "inv_names r \<Longrightarrow> inv_names (snd (Deregister name r))"
  by (cases name r rule: Deregister_cases) (auto simp: inv_names_def Deregister_success)

lemma inv_names_Select: "inv_names r \<Longrightarrow> inv_names (snd (Select ks t r))"
  by (simp add: inv_names_def Select_byName)

lemma inv_indexed_Register: "inv_indexed r \<Longrightarrow> inv_indexed (snd (Register ao ts r))"
proof (cases ao ts r rule: Register_cases)
  case fail
  assume "inv_indexed r"
  then show ?thesis using fail by simp
next
  case (ok a)
  assume inv: "inv_indexed r"
  show ?thesis
    unfolding inv_indexed_def
  proof (intro allI impI)
    fix t l b
    assume l: "byType (snd (Register ao ts r)) t = Some l" and b: "b \<in> set l"
    from l b ok have "b = a \<or> b \<in> set (slice_at r t)"
      by (auto simp: Register_success slice_at_def split: if_splits)
    moreover have "byName r (Name b) = Some b" if "b \<in> set (slice_at r t)"
    proof (cases "byType r t")
      case None
      then show ?thesis using that by (simp add: slice_at_def)
    next
      case (Some l0)
      then show ?thesis using that inv_indexedD [OF inv Some] by (simp add: slice_at_def)
    qed
    ultimately show "byName (snd (Register ao ts r)) (Name b) = Some b"
      using ok by (auto simp: Register_success)
  qed
qed

lemma inv_indexed_Deregister: "inv_indexed r \<Longrightarrow> inv_indexed (snd (Deregister name r))"
proof (cases name r rule: Deregister_cases)
  case fail
  assume "inv_indexed r"
  then show ?thesis using fail by simp
next
  case (ok x)
  assume inv: "inv_indexed r"
  show ?thesis
    unfolding inv_indexed_def
  proof (intro allI impI)
    fix t l b
    assume l: "byType (snd (Deregister name r)) t = Some l" and b: "b \<in> set l"
    from l b ok obtain l0 where "byType r t = Some l0" "b \<in> set l0" "Name b \<noteq> name"
      by (auto simp: Deregister_success split: option.splits if_splits)
    then show "byName (snd (Deregister name r)) (Name b) = Some b"
      using inv_indexedD [OF inv, of t l0 b] ok by (simp add: Deregister_success)
  qed
qed

lemma inv_indexed_Select:
  assumes "inv_names r" "inv_indexed r"
  shows "inv_indexed (snd (Select ks t r))"
  unfolding inv_indexed_def
proof (intro allI impI)
  fix u l b
  assume l: "byType (snd (Select ks t r)) u = Some l" and b: "b \<in> set l"
  have "byName r (Name b) = Some b"
  proof (cases "byType (snd (Select ks t r)) u = byType r u")
    case True
    then show ?thesis using l b inv_indexedD [OF assms(2), of u l b] by simp
  next
    case False
    then have "u = t" using Select_byType_other [of u t ks r] by auto
    with False Select_byType_same [of ks t r] l
    have "l = scan (byName r) t ks []" by auto
    with b obtain k where "byName r k = Some b"
      by (auto simp: scan_eq set_map_filter)
    then show ?thesis using assms(1) by (auto simp: inv_names_def)
  qed
  then show "byName (snd (Select ks t r)) (Name b) = Some b"
    by (simp add: Select_byName)
qed

lemma inv_capable_Register: "inv_capable r \<Longrightarrow> inv_capable (snd (Register ao ts r))"
proof (cases ao ts r rule: Register_cases)
  case fail
  assume "inv_capable r"
  then show ?thesis using fail by simp
next
  case (ok a)
  assume inv: "inv_capable r"
  show ?thesis
    unfolding inv_capable_def
  proof (intro allI impI)
    fix t l b
    assume l: "byType (snd (Register ao ts r)) t = Some l" and b: "b \<in> set l"
    show "CanHandle b t"
    proof (cases "t \<in> set ts \<and> CanHandle a t")
      case True
      with l ok have "l = sort_key Name (slice_at r t @ [a])"
        by (simp add: Register_success)
      with b have "b = a \<or> b \<in> set (slice_at r t)" by auto
      then show ?thesis
      proof
        assume "b = a"
        then show ?thesis using True by simp
      next
        assume m: "b \<in> set (slice_at r t)"
        then obtain l0 where "byType r t = Some l0" "b \<in> set l0"
          by (cases "byType r t") (auto simp: slice_at_def)
        then show ?thesis using inv_capableD [OF inv] by blast
      qed
    next
      case False
      with l ok obtain l0 where "byType r t = Some l0" "l = sort_key Name l0"
        by (auto simp: Register_success)
      then show ?thesis using inv_capableD [OF inv, of t l0 b] b by simp
    qed
  qed
qed

lemma inv_capable_Deregister: "inv_capable r \<Longrightarrow> inv_capable (snd (Deregister name r))"
proof (cases name r rule: Deregister_cases)
  case fail
  assume "inv_capable r"
  then show ?thesis using fail by simp
next
  case (ok x)
  assume inv: "inv_capable r"
  show ?thesis
    unfolding inv_capable_def
  proof (intro allI impI)
    fix t l b
    assume l: "byType (snd (Deregister name r)) t = Some l" and b: "b \<in> set l"
    from l b ok obtain l0 where "byType r t = Some l0" "b \<in> set l0"
      by (auto simp: Deregister_success split: option.splits if_splits)
    then show "CanHandle b t" using inv_capableD [OF inv] by blast
  qed
qed

lemma inv_capable_Select: "inv_capable r \<Longrightarrow> inv_capable (snd (Select ks t r))"
  unfolding inv_capable_def
proof (intro allI impI)
  fix u l b
  assume inv: "\<forall>t l a. byType r t = Some l \<longrightarrow> a \<in> set l \<longrightarrow> CanHandle a t"
  assume l: "byType (snd (Select ks t r)) u = Some l" and b: "b \<in> set l"
  show "CanHandle b u"
  proof (cases "byType (snd (Select ks t r)) u = byType r u")
    case True
    then have "byType r u = Some l" using l by simp
    then show ?thesis using inv b by blast
  next
    case False
    then have u: "u = t" using Select_byType_other [of u t ks r] by auto
    with False Select_byType_same [of ks t r] l
    have "l = scan (byName r) t ks []" by auto
    with b u show ?thesis by (simp add: scan_eq)
  qed
qed

lemma inv_cursorD:
  assumes "inv_cursor r"
  shows "byType r t = None \<Longrightarrow> rrIdx r t = None"
    and "byType r t = Some l \<Longrightarrow> l \<noteq> []"
    and "byType r t = Some l \<Longrightarrow> rrIdx r t = Some c \<Longrightarrow> 0 \<le> c \<and> c < int (length l)"
  using assms unfolding inv_cursor_def
  by (auto split: option.splits dest: spec [of _ t])

lemma inv_cursorI:
  assumes "\<And>t. byType r t = None \<Longrightarrow> rrIdx r t = None"
    and "\<And>t l. byType r t = Some l \<Longrightarrow> l \<noteq> []"
    and "\<And>t l c. byType r t = Some l \<Longrightarrow> rrIdx r t = Some c \<Longrightarrow> 0 \<le> c \<and> c < int (length l)"
  shows "inv_cursor r"
  unfolding inv_cursor_def using assms by (auto split: option.splits)

lemma inv_cursor_Register: "inv_cursor r \<Longrightarrow> inv_cursor (snd (Register ao ts r))"
proof (cases ao ts r rule: Register_cases)
  case fail
  assume "inv_cursor r"
  then show ?thesis using fail by simp
next
  case (ok a)
  assume inv: "inv_cursor r"
  let ?r = "snd (Register ao ts r)"
  have bt: "byType ?r t =
           (if t \<in> set ts \<and> CanHandle a t then Some (sort_key Name (slice_at r t @ [a]))
            else map_option (sort_key Name) (byType r t))" for t
    using ok by (simp add: Register_success)
  have ri: "rrIdx ?r = rrIdx r" using ok by (simp add: Register_success)
  show ?thesis
  proof (rule inv_cursorI)
    fix t assume "byType ?r t = None"
    then have "byType r t = None" by (simp add: bt split: if_splits)
    then show "rrIdx ?r t = None" using inv_cursorD(1) [OF inv] ri by simp
  next
    fix t l assume l: "byType ?r t = Some l"
    show "l \<noteq> []"
    proof (cases "t \<in> set ts \<and> CanHandle a t")
      case True
      then have "length l = length (slice_at r t) + 1" using l bt by auto
      then show ?thesis by auto
    next
      case False
      with l bt obtain l0 where "byType r t = Some l0" "l = sort_key Name l0" by auto
      then have "length l = length l0" "l0 \<noteq> []"
        using inv_cursorD(2) [OF inv, of t l0] by simp_all
      then show ?thesis by auto
    qed
  next
    fix t l c assume l: "byType ?r t = Some l" and c: "rrIdx ?r t = Some c"
    from c ri have c0: "rrIdx r t = Some c" by simp
    then obtain l0 where l0: "byType r t = Some l0"
      using inv_cursorD(1) [OF inv, of t] by (cases "byType r t") auto
    have "length l0 \<le> length l"
      using l l0 bt [of t] by (auto simp: slice_at_def split: if_splits)
    then show "0 \<le> c \<and> c < int (length l)"
      using inv_cursorD(3) [OF inv l0 c0] by simp
  qed
qed

lemma inv_cursor_Deregister: "inv_cursor r \<Longrightarrow> inv_cursor (snd (Deregister name r))"
proof (cases name r rule: Deregister_cases)
  case fail
  assume "inv_cursor r"
  then show ?thesis using fail by simp
next
  case (ok x)
  assume inv: "inv_cursor r"
  let ?r = "snd (Deregister name r)"
  let ?f = "filter (\<lambda>ag. Name ag \<noteq> name)"
  note ds = Deregister_success(3,4) [OF ok]
  show ?thesis
  proof (rule inv_cursorI)
    fix t assume n: "byType ?r t = None"
    show "rrIdx ?r t = None"
    proof (cases "byType r t")
      case None
      then show ?thesis using inv_cursorD(1) [OF inv None] by (simp add: ds)
    next
      case (Some l0)
      then show ?thesis using n by (simp add: ds split: if_splits)
    qed
  next
    fix t l assume "byType ?r t = Some l"
    then show "l \<noteq> []" by (auto simp: ds split: option.splits if_splits)
  next
    fix t l c assume l: "byType ?r t = Some l" and c: "rrIdx ?r t = Some c"
    from l obtain l0 where l0: "byType r t = Some l0" "l = ?f l0" "?f l0 \<noteq> []"
      by (auto simp: ds split: option.splits if_splits)
    show "0 \<le> c \<and> c < int (length l)"
    proof (cases "cursor_at r t \<ge> int (length (?f l0))")
      case True
      then have "c = 0" using c l0 by (simp add: ds)
      then show ?thesis using l0 by simp
    next
      case False
      then have c0: "rrIdx r t = Some c" using c l0 by (simp add: ds)
      then have "cursor_at r t = c" by (simp add: cursor_at_def)
      then show ?thesis using False inv_cursorD(3) [OF inv l0(1) c0] l0 by simp
    qed
  qed
qed


lemma inv_cursor_Select: "inv_cursor r \<Longrightarrow> inv_cursor (snd (Select ks t r))"
proof -
  assume inv: "inv_cursor r"
  let ?r = "snd (Select ks t r)"
  show ?thesis
  proof (cases "fst (Select ks t r) = NoAgent")
    case True
    then have "?r = r"
      by (auto simp: Select_def Let_def pick_def split: if_splits)
    then show ?thesis using inv by simp
  next
    case False
    define l where "l = (if slice_at r t = [] then scan (byName r) t ks [] else slice_at r t)"
    define r0 where "r0 = (if slice_at r t = [] then r\<lparr>byType := (byType r)(t \<mapsto> l)\<rparr> else r)"
    from False have ne: "l \<noteq> []"
      by (auto simp: Select_def Let_def l_def split: if_splits)
    have sel: "Select ks t r = pick t l r0"
      using ne by (auto simp: Select_def Let_def l_def r0_def)
    have bt: "byType ?r t = Some l"
      by (cases "byType r t") (auto simp: sel pick_byType r0_def l_def slice_at_def)
    have bo: "byType ?r u = byType r u" if "u \<noteq> t" for u
      using that by (simp add: Select_byType_other)
    have ro: "rrIdx ?r u = rrIdx r u" if "u \<noteq> t" for u
      using that by (simp add: Select_rrIdx_other)
    have r0: "rrIdx r0 = rrIdx r" by (simp add: r0_def)
    have old: "0 \<le> c \<and> c < int (length l)" if "rrIdx r t = Some c" for c
    proof (cases "byType r t")
      case None
      then show ?thesis using inv_cursorD(1) [OF inv None] that by simp
    next
      case (Some l0)
      then have "l0 \<noteq> []" using inv_cursorD(2) [OF inv Some] by simp
      then have "l = l0" using Some by (simp add: l_def slice_at_def)
      then show ?thesis using inv_cursorD(3) [OF inv Some that] by simp
    qed
    show ?thesis
    proof (rule inv_cursorI)
      fix u assume n: "byType ?r u = None"
      then have "u \<noteq> t" using bt by auto
      then show "rrIdx ?r u = None"
        using n inv_cursorD(1) [OF inv, of u] by (simp add: bo ro)
    next
      fix u l' assume "byType ?r u = Some l'"
      then show "l' \<noteq> []"
        using bt ne bo [of u] inv_cursorD(2) [OF inv, of u l'] by (cases "u = t") auto
    next
      fix u l' c assume l': "byType ?r u = Some l'" and c: "rrIdx ?r u = Some c"
      show "0 \<le> c \<and> c < int (length l')"
      proof (cases "u = t")
        case False
        then show ?thesis using l' c inv_cursorD(3) [OF inv, of u l' c] by (simp add: bo ro)
      next
        case True
        then have "l' = l" using l' bt by simp
        then show ?thesis
          using pick_rrIdx_same [OF ne, of t r0] c True old by (auto simp: sel r0)
      qed
    qed
  qed
qed

lemma inv_New: "inv NewRegistry"
  by (simp add: inv_def inv_names_def inv_indexed_def inv_capable_def inv_cursor_def NewRegistry_def)

lemma inv_step: "inv r \<Longrightarrow> inv (step r x)"
  by (cases x)
    (simp_all add: inv_def inv_names_Register inv_names_Deregister inv_names_Select
      inv_indexed_Register inv_indexed_Deregister inv_indexed_Select
      inv_capable_Register inv_capable_Deregister inv_capable_Select
      inv_cursor_Register inv_cursor_Deregister inv_cursor_Select)

lemma inv_foldl: "inv r \<Longrightarrow> inv (foldl step r ops)"
  by (induction ops arbitrary: r) (simp_all add: inv_step)

lemma inv_run: "inv (run ops)"
  by (simp add: run_def inv_foldl inv_New)

text \<open>With a cursor that is never negative, \<^verbatim>\<open>list[i]\<close> cannot panic.\<close>

lemma Select_no_panic:
  assumes "inv_cursor r"
  shows "fst (Select ks t r) \<noteq> IndexPanic"
proof -
  have c: "0 \<le> cursor_at r t"
    using inv_cursorD(1,3) [OF assms, of t]
    by (cases "rrIdx r t"; cases "byType r t") (auto simp: cursor_at_def)
  have p: "fst (pick t l r0) \<noteq> IndexPanic" if "l \<noteq> []" "rrIdx r0 = rrIdx r" for l r0
  proof -
    have "0 \<le> cursor_at r0 t" using c that(2) by (simp add: cursor_at_def)
    from pick_ok [OF that(1) this] show ?thesis by auto
  qed
  show ?thesis
  proof (cases "slice_at r t = []")
    case False
    then show ?thesis using p [of "slice_at r t" r] by (simp add: Select_def Let_def)
  next
    case True
    show ?thesis
    proof (cases "scan (byName r) t ks [] = []")
      case True
      then show ?thesis using \<open>slice_at r t = []\<close> by (simp add: Select_def Let_def)
    next
      case False
      then show ?thesis
        using True p [of "scan (byName r) t ks []"
            "r\<lparr>byType := (byType r)(t \<mapsto> scan (byName r) t ks [])\<rparr>"]
        by (simp add: Select_def Let_def)
    qed
  qed
qed

lemma Select_member:
  assumes "Select ks t r = (Selected a, r')"
  shows "a \<in> set (slice_at r' t)"
proof -
  define l where "l = (if slice_at r t = [] then scan (byName r) t ks [] else slice_at r t)"
  define r0 where "r0 = (if slice_at r t = [] then r\<lparr>byType := (byType r)(t \<mapsto> l)\<rparr> else r)"
  from assms have ne: "l \<noteq> []"
    by (auto simp: Select_def Let_def l_def split: if_splits)
  have sel: "Select ks t r = pick t l r0"
    using ne by (auto simp: Select_def Let_def l_def r0_def)
  have "byType r0 t = Some l"
    using ne by (cases "byType r t") (auto simp: r0_def l_def slice_at_def)
  then have "slice_at r' t = l"
    using assms pick_byType [of t l r0] by (simp add: sel slice_at_def)
  moreover have "a \<in> set l"
    using assms by (auto simp: sel pick_def Let_def split: if_splits)
  ultimately show ?thesis by simp
qed

lemma run_never_panics: "fst (Select ks t (run ops)) \<noteq> IndexPanic"
  using Select_no_panic [of "run ops" ks t] inv_run [of ops] by (simp add: inv_def)

subsection \<open>List\<close>

lemma names_of_scan:
  "inv_names r \<Longrightarrow>
   map Name (List.map_filter (byName r) ks) = filter (\<lambda>k. byName r k \<noteq> None) ks"
  by (induction ks) (auto simp: map_filter_simps inv_names_def split: option.splits)

lemma List_agents_names_distinct:
  "inv_names r \<Longrightarrow> range_order (byName r) ks \<Longrightarrow>
   distinct (map Name (List.map_filter (byName r) ks))"
  by (simp add: names_of_scan range_order_def)

lemma List_agents_sorted: "sorted (map Name (List_agents ks r))"
  by (simp add: List_agents_def)

lemma set_List_agents:
  "range_order (byName r) ks \<Longrightarrow> set (List_agents ks r) = ran (byName r)"
  by (auto simp: List_agents_def set_map_filter range_order_def ran_def)

subsection \<open>Evaluation of the sample call sequences\<close>

lemmas eval_defs = run_def Register_def Deregister_def Select_def pick_def unindex_all_def
  unindex_def sort_all_def index_type_def dedupe_def slice_at_def cursor_at_def go_rem_def
  NewRegistry_def Let_def agent_a_def agent_b_def two_graders_def unindexed_def

section \<open>The claims\<close>

text \<open>
  The registry states a program can see are those of \<^term>\<open>run ops\<close>: the empty registry
  of \<^verbatim>\<open>NewRegistry\<close> followed by any calls with any arguments. An \<^term>\<open>OpSelect\<close>
  carries the order in which its fallback scan would visit the name index; the theorems
  about \<^term>\<open>run\<close> hold for every such list, so for every order a Go map can yield.
\<close>

text \<open>
  C1: after any sequence of \<^verbatim>\<open>Register\<close>, \<^verbatim>\<open>Deregister\<close>, \<^verbatim>\<open>Select\<close>, \<^verbatim>\<open>Get\<close> and
  \<^verbatim>\<open>List\<close> calls, every agent \<open>a\<close> in the capability sequence of any task type \<open>t\<close> is in
  the name index under its own name: the name index maps \<open>Name a\<close> to \<open>a\<close>.
\<close>

theorem C1_indexed_agents_are_registered:
  "byType (run ops) t = Some l \<Longrightarrow> a \<in> set l \<Longrightarrow> byName (run ops) (Name a) = Some a"
  using inv_run [of ops] inv_indexedD [of "run ops" t l a] by (simp add: inv_def)

theorem C1_indexed_agents_are_registered_witness:
  "byType (run (unindexed @ [OpDeregister ''a'', OpSelect [''b''] ''grade''])) ''grade''
     = Some [agent_b] \<and>
   agent_b \<in> set [agent_b] \<and>
   byName (run (unindexed @ [OpDeregister ''a'', OpSelect [''b''] ''grade'']))
     (Name agent_b) = Some agent_b"
proof -
  let ?ops = "unindexed @ [OpDeregister ''a'', OpSelect [''b''] ''grade'']"
  have h1: "byType (run ?ops) ''grade'' = Some [agent_b]" by (simp add: eval_defs)
  have h2: "agent_b \<in> set [agent_b]" by simp
  from C1_indexed_agents_are_registered [OF h1 h2] h1 h2 show ?thesis by simp
qed

text \<open>
  C2: the claim is that a capability sequence, however it was filled, the fallback scan of
  \<^verbatim>\<open>Select\<close> included, is sorted by agent name from then on. The code sorts in
  \<^verbatim>\<open>Register\<close> only (\<open>Register_sorts_all\<close>). With agents \<open>a\<close> and \<open>b\<close> registered
  without task types, a \<^verbatim>\<open>Select\<close> whose scan meets \<open>b\<close> before \<open>a\<close> stores the
  sequence \<open>b, a\<close>, which is not sorted.
\<close>

theorem C2_fallback_sequence_unsorted:
  "range_order (byName (run unindexed)) [''b'', ''a''] \<and>
   byType (snd (Select [''b'', ''a''] ''grade'' (run unindexed))) ''grade''
     = Some [agent_b, agent_a] \<and>
   \<not> sorted (map Name [agent_b, agent_a])"
proof -
  have "dom (byName (run unindexed)) = {''a'', ''b''}"
    by (auto simp: eval_defs split: if_splits)
  then have "range_order (byName (run unindexed)) [''b'', ''a'']"
    by (auto simp: range_order_def)
  moreover have "byType (snd (Select [''b'', ''a''] ''grade'' (run unindexed))) ''grade''
     = Some [agent_b, agent_a]"
    by (simp add: eval_defs)
  moreover have "\<not> sorted (map Name [agent_b, agent_a])"
    by (simp add: agent_a_def agent_b_def)
  ultimately show ?thesis by simp
qed

text \<open>
  C3: after any sequence of calls and for every task type \<open>t\<close>: a capability sequence that
  is present is not empty, and a cursor that is present beside it is an index into it
  (\<open>0 \<le> c < length\<close>); where the sequence is absent or empty there is no cursor.
\<close>

theorem C3_cursor_in_range:
  "(\<forall>l. byType (run ops) t = Some l \<longrightarrow>
       l \<noteq> [] \<and> (\<forall>c. rrIdx (run ops) t = Some c \<longrightarrow> 0 \<le> c \<and> c < int (length l))) \<and>
   (byType (run ops) t = None \<or> byType (run ops) t = Some [] \<longrightarrow> rrIdx (run ops) t = None)"
proof -
  have i: "inv_cursor (run ops)" using inv_run [of ops] by (simp add: inv_def)
  show ?thesis using inv_cursorD [OF i, of t] by auto
qed

theorem C3_cursor_in_range_witness:
  "byType (run (two_graders @ [OpSelect [] ''grade''])) ''grade'' = Some [agent_a, agent_b] \<and>
   [agent_a, agent_b] \<noteq> [] \<and>
   rrIdx (run (two_graders @ [OpSelect [] ''grade''])) ''grade'' = Some 1 \<and>
   (0::int) \<le> 1 \<and> 1 < int (length [agent_a, agent_b]) \<and>
   byType (run (two_graders @ [OpSelect [] ''grade''])) ''notify'' = None \<and>
   rrIdx (run (two_graders @ [OpSelect [] ''grade''])) ''notify'' = None"
proof -
  let ?ops = "two_graders @ [OpSelect [] ''grade'']"
  have h1: "byType (run ?ops) ''grade'' = Some [agent_a, agent_b]" by (simp add: eval_defs)
  have h2: "rrIdx (run ?ops) ''grade'' = Some 1" by (simp add: eval_defs)
  have h3: "byType (run ?ops) ''notify'' = None" by (simp add: eval_defs)
  from C3_cursor_in_range [of ?ops "''grade''"] C3_cursor_in_range [of ?ops "''notify''"] h1 h2 h3
  show ?thesis by simp
qed

text \<open>
  C4: from the empty registry, \<^verbatim>\<open>Register(A, "grade")\<close> and \<^verbatim>\<open>Register(B, "grade")\<close>
  succeed when \<open>A\<close> and \<open>B\<close> have distinct non-empty names and both handle "grade"; four
  \<^verbatim>\<open>Select("grade")\<close> calls in a row then each find an agent and return \<open>X, Y, X, Y\<close>,
  where \<open>X\<close> is the one of \<open>A\<close>, \<open>B\<close> with the smaller name and \<open>Y\<close> the other.
\<close>

theorem C4_round_robin_two_agents:
  assumes "Name A \<noteq> []" "Name B \<noteq> []" "Name A \<noteq> Name B"
    and "CanHandle A ''grade''" "CanHandle B ''grade''"
  defines "X \<equiv> (if Name A < Name B then A else B)"
    and "Y \<equiv> (if Name A < Name B then B else A)"
  shows "\<exists>r1 r2 s1 s2 s3 s4.
      Register (Some A) [''grade''] NewRegistry = (None, r1) \<and>
      Register (Some B) [''grade''] r1 = (None, r2) \<and>
      Select k1 ''grade'' r2 = (Selected X, s1) \<and>
      Select k2 ''grade'' s1 = (Selected Y, s2) \<and>
      Select k3 ''grade'' s2 = (Selected X, s3) \<and>
      Select k4 ''grade'' s3 = (Selected Y, s4) \<and> Name X < Name Y"
proof -
  define r1 where "r1 = snd (Register (Some A) [''grade''] NewRegistry)"
  define r2 where "r2 = snd (Register (Some B) [''grade''] r1)"
  have a: "byName NewRegistry (Name A) = None" by (simp add: NewRegistry_def)
  note ra = Register_success [OF assms(1) a, of "[''grade'']"]
  have b: "byName r1 (Name B) = None"
    unfolding r1_def ra(2) using assms(3) by (simp add: NewRegistry_def)
  note rb = Register_success [OF assms(2) b, of "[''grade'']"]
  have e1: "Register (Some A) [''grade''] NewRegistry = (None, r1)"
    using ra(1) by (simp add: r1_def prod_eq_iff)
  have e2: "Register (Some B) [''grade''] r1 = (None, r2)"
    using rb(1) by (simp add: r2_def prod_eq_iff)
  have t1: "byType r1 ''grade'' = Some [A]"
    unfolding r1_def ra(4) using assms(4) by (simp add: slice_at_def NewRegistry_def)
  have t2: "byType r2 ''grade'' = Some [X, Y]"
    using assms(3,5) t1 by (auto simp: r2_def rb slice_at_def X_def Y_def)
  have "rrIdx r2 = rrIdx r1" by (simp add: r2_def rb(3))
  also have "\<dots> = rrIdx NewRegistry" by (simp only: r1_def ra(3))
  finally have c2: "rrIdx r2 = Map.empty" by (simp add: NewRegistry_def)
  define s1 where "s1 = r2\<lparr>rrIdx := (rrIdx r2)(''grade'' \<mapsto> 1)\<rparr>"
  define s2 where "s2 = r2\<lparr>rrIdx := (rrIdx r2)(''grade'' \<mapsto> 0)\<rparr>"
  have g1: "Select k ''grade'' r2 = (Selected X, s1)" for k
    using t2 c2
    by (simp add: Select_def pick_def Let_def slice_at_def cursor_at_def go_rem_def s1_def)
  have g2: "Select k ''grade'' s1 = (Selected Y, s2)" for k
    using t2
    by (simp add: Select_def pick_def Let_def slice_at_def cursor_at_def go_rem_def s1_def s2_def)
  have g3: "Select k ''grade'' s2 = (Selected X, s1)" for k
    using t2
    by (simp add: Select_def pick_def Let_def slice_at_def cursor_at_def go_rem_def s1_def s2_def)
  have "Name X < Name Y" using assms(3) by (auto simp: X_def Y_def)
  with e1 e2 g1 g2 g3 show ?thesis by blast
qed

theorem C4_round_robin_two_agents_witness:
  "Name agent_b \<noteq> [] \<and> Name agent_a \<noteq> [] \<and> Name agent_b \<noteq> Name agent_a \<and>
   CanHandle agent_b ''grade'' \<and> CanHandle agent_a ''grade'' \<and>
   (\<exists>r1 r2 s1 s2 s3 s4.
      Register (Some agent_b) [''grade''] NewRegistry = (None, r1) \<and>
      Register (Some agent_a) [''grade''] r1 = (None, r2) \<and>
      Select [] ''grade'' r2 = (Selected agent_a, s1) \<and>
      Select [] ''grade'' s1 = (Selected agent_b, s2) \<and>
      Select [] ''grade'' s2 = (Selected agent_a, s3) \<and>
      Select [] ''grade'' s3 = (Selected agent_b, s4) \<and> Name agent_a < Name agent_b)"
proof -
  have h: "Name agent_b \<noteq> []" "Name agent_a \<noteq> []" "Name agent_b \<noteq> Name agent_a"
    "CanHandle agent_b ''grade''" "CanHandle agent_a ''grade''"
    by (simp_all add: agent_a_def agent_b_def)
  have lt: "\<not> Name agent_b < Name agent_a" by (simp add: agent_a_def agent_b_def)
  from C4_round_robin_two_agents [OF h, of "[]" "[]" "[]" "[]"] h lt show ?thesis by simp
qed

text \<open>
  C5: \<^verbatim>\<open>Register\<close> returns an error exactly when the agent is nil, or its name is empty,
  or the name is already a key of the name index; and when it returns an error the
  registry (name index, capability sequences, cursors) is as before the call.
\<close>

theorem C5_register_errors:
  "(fst (Register ao ts r) \<noteq> None) =
     (ao = None \<or> (\<exists>a. ao = Some a \<and> (Name a = [] \<or> byName r (Name a) \<noteq> None))) \<and>
   (fst (Register ao ts r) \<noteq> None \<longrightarrow> snd (Register ao ts r) = r)"
  by (auto simp: Register_def Let_def split: option.splits)

theorem C5_register_errors_witness:
  "byName (run two_graders) (Name agent_a) \<noteq> None \<and>
   fst (Register (Some agent_a) [''notify''] (run two_graders)) \<noteq> None \<and>
   snd (Register (Some agent_a) [''notify''] (run two_graders)) = run two_graders"
proof -
  have h: "byName (run two_graders) (Name agent_a) \<noteq> None" by (simp add: eval_defs)
  from C5_register_errors [of "Some agent_a" "[''notify'']" "run two_graders"] h
  show ?thesis by simp
qed

text \<open>
  C6: a \<^verbatim>\<open>Register\<close> call that passes its checks returns no error, whatever the agent
  answers for the task types. \<^verbatim>\<open>dedupe\<close> keeps the first occurrence of every task type
  of the argument list. For a task type \<open>t\<close> of that list the agent is appended to the
  sequence of \<open>t\<close> (once, and the sequence is then sorted by name) exactly when the agent
  handles \<open>t\<close>; to every other sequence nothing is appended.
\<close>

theorem C6_register_appends_when_capable:
  assumes "Name a \<noteq> []" "byName r (Name a) = None"
  shows "fst (Register (Some a) ts r) = None \<and>
    dedupe ts = rev (remdups (rev ts)) \<and>
    byType (snd (Register (Some a) ts r)) t =
      (if t \<in> set (dedupe ts) \<and> CanHandle a t
       then Some (sort_key Name (slice_at r t @ [a]))
       else map_option (sort_key Name) (byType r t))"
  using Register_success(1,4) [OF assms] by (simp add: dedupe_eq)

theorem C6_register_appends_when_capable_witness:
  "Name agent_a \<noteq> [] \<and> byName NewRegistry (Name agent_a) = None \<and>
   fst (Register (Some agent_a) [''grade'', ''notify'', ''grade''] NewRegistry) = None \<and>
   dedupe [''grade'', ''notify'', ''grade''] = [''grade'', ''notify''] \<and>
   byType (snd (Register (Some agent_a) [''grade'', ''notify'', ''grade''] NewRegistry)) ''grade''
     = Some [agent_a] \<and>
   byType (snd (Register (Some agent_a) [''grade'', ''notify'', ''grade''] NewRegistry)) ''notify''
     = None"
proof -
  have h1: "Name agent_a \<noteq> []" by (simp add: agent_a_def)
  have h2: "byName NewRegistry (Name agent_a) = None" by (simp add: NewRegistry_def)
  have c: "CanHandle agent_a ''grade''" "\<not> CanHandle agent_a ''notify''"
    by (simp_all add: agent_a_def)
  have s: "slice_at NewRegistry ''grade'' = []" "byType NewRegistry ''notify'' = None"
    by (simp_all add: slice_at_def NewRegistry_def)
  from C6_register_appends_when_capable [OF h1 h2, of "[''grade'', ''notify'', ''grade'']" "''grade''"]
    C6_register_appends_when_capable [OF h1 h2, of "[''grade'', ''notify'', ''grade'']" "''notify''"]
    h1 h2 c s
  show ?thesis by simp
qed

text \<open>
  C7: when the capability sequence of \<open>t\<close> is absent or empty and no agent of the name
  index handles \<open>t\<close>, \<^verbatim>\<open>Select(t)\<close> returns not found and the registry after the call
  is the registry before it, whatever the order of the scan.
\<close>

theorem C7_select_nothing_found:
  "slice_at r t = [] \<Longrightarrow> \<forall>k a. byName r k = Some a \<longrightarrow> \<not> CanHandle a t \<Longrightarrow>
   Select ks t r = (NoAgent, r)"
proof -
  assume e: "slice_at r t = []" and n: "\<forall>k a. byName r k = Some a \<longrightarrow> \<not> CanHandle a t"
  have "filter (\<lambda>a. CanHandle a t) (List.map_filter (byName r) ks) = []"
    using n by (auto simp: filter_empty_conv set_map_filter)
  then have "scan (byName r) t ks [] = []" by (simp add: scan_eq)
  then show ?thesis using e by (simp add: Select_def Let_def)
qed

theorem C7_select_nothing_found_witness:
  "slice_at (run two_graders) ''notify'' = [] \<and>
   \<not> CanHandle agent_a ''notify'' \<and> \<not> CanHandle agent_b ''notify'' \<and>
   Select [''a'', ''b''] ''notify'' (run two_graders) = (NoAgent, run two_graders)"
proof -
  have h1: "slice_at (run two_graders) ''notify'' = []" by (simp add: eval_defs)
  have c: "\<not> CanHandle agent_a ''notify''" "\<not> CanHandle agent_b ''notify''"
    by (simp_all add: agent_a_def agent_b_def)
  have h2: "\<forall>k a. byName (run two_graders) k = Some a \<longrightarrow> \<not> CanHandle a ''notify''"
    by (auto simp: eval_defs split: if_splits)
  from C7_select_nothing_found [OF h1 h2, of "[''a'', ''b'']"] h1 c show ?thesis by simp
qed

text \<open>
  C8: for a task type \<open>t\<close> whose sequence is shorter after \<^verbatim>\<open>Deregister(name)\<close> and still
  there (so not empty): the new sequence is the old one without the agents of that name,
  and the cursor of \<open>t\<close> is zero if the cursor before the call (zero when absent) was at
  least the new length, and is as before the call otherwise.
\<close>

theorem C8_deregister_clamps_cursor:
  "byType r t = Some l \<Longrightarrow> byType (snd (Deregister name r)) t = Some l' \<Longrightarrow>
   length l' < length l \<Longrightarrow>
   l' = filter (\<lambda>ag. Name ag \<noteq> name) l \<and> l' \<noteq> [] \<and>
   rrIdx (snd (Deregister name r)) t =
     (if cursor_at r t \<ge> int (length l') then Some 0 else rrIdx r t)"
proof (cases name r rule: Deregister_cases)
  case fail
  assume "byType r t = Some l" "byType (snd (Deregister name r)) t = Some l'"
    "length l' < length l"
  then show ?thesis using fail by simp
next
  case (ok x)
  assume "byType r t = Some l" "byType (snd (Deregister name r)) t = Some l'"
    "length l' < length l"
  then show ?thesis
    by (auto simp: Deregister_success(3,4) [OF ok] split: if_splits)
qed

theorem C8_deregister_clamps_cursor_witness:
  "byType (run (two_graders @ [OpSelect [] ''grade''])) ''grade'' = Some [agent_a, agent_b] \<and>
   byType (snd (Deregister ''b'' (run (two_graders @ [OpSelect [] ''grade''])))) ''grade''
     = Some [agent_a] \<and>
   length [agent_a] < length [agent_a, agent_b] \<and>
   cursor_at (run (two_graders @ [OpSelect [] ''grade''])) ''grade'' = 1 \<and>
   rrIdx (snd (Deregister ''b'' (run (two_graders @ [OpSelect [] ''grade''])))) ''grade''
     = Some 0"
proof -
  let ?r = "run (two_graders @ [OpSelect [] ''grade''])"
  have h1: "byType ?r ''grade'' = Some [agent_a, agent_b]" by (simp add: eval_defs)
  have h2: "byType (snd (Deregister ''b'' ?r)) ''grade'' = Some [agent_a]"
    by (simp add: eval_defs)
  have h3: "length [agent_a] < length [agent_a, agent_b]" by simp
  have c: "cursor_at ?r ''grade'' = 1" by (simp add: eval_defs)
  from C8_deregister_clamps_cursor [OF h1 h2 h3] h1 h2 h3 c show ?thesis by simp
qed

text \<open>
  C9: with \<^verbatim>\<open>CanHandle\<close> a pure predicate, in every registry state that calls can
  produce, an agent that \<^verbatim>\<open>Select(taskType)\<close> returns handles \<open>taskType\<close>.
\<close>

theorem C9_selected_agent_can_handle:
  "fst (Select ks t (run ops)) = Selected a \<Longrightarrow> CanHandle a t"
proof -
  assume "fst (Select ks t (run ops)) = Selected a"
  then obtain r' where s: "Select ks t (run ops) = (Selected a, r')"
    by (cases "Select ks t (run ops)") simp
  have "inv_capable (run ops)" using inv_run [of ops] by (simp add: inv_def)
  then have "inv_capable (snd (Select ks t (run ops)))" by (rule inv_capable_Select)
  then have i: "inv_capable r'" using s by simp
  from Select_member [OF s] obtain l where "byType r' t = Some l" "a \<in> set l"
    by (cases "byType r' t") (auto simp: slice_at_def)
  then show ?thesis using inv_capableD [OF i] by blast
qed

theorem C9_selected_agent_can_handle_witness:
  "fst (Select [''b'', ''a''] ''grade'' (run unindexed)) = Selected agent_b \<and>
   CanHandle agent_b ''grade''"
proof -
  have h: "fst (Select [''b'', ''a''] ''grade'' (run unindexed)) = Selected agent_b"
    by (simp add: eval_defs)
  from C9_selected_agent_can_handle [OF h] h show ?thesis by simp
qed

text \<open>
  C10: for a name that is not a key of the name index, \<^verbatim>\<open>Deregister\<close> returns false and
  the registry after the call (name index, capability sequences, cursors) is the registry
  before it.
\<close>

theorem C10_deregister_unknown:
  "byName r name = None \<Longrightarrow> Deregister name r = (False, r)"
  by (simp add: Deregister_def)

theorem C10_deregister_unknown_witness:
  "byName (run two_graders) ''ghost'' = None \<and>
   Deregister ''ghost'' (run two_graders) = (False, run two_graders)"
proof -
  have h: "byName (run two_graders) ''ghost'' = None" by (simp add: eval_defs)
  from C10_deregister_unknown [OF h] h show ?thesis by simp
qed

end
